theory Spec2Isabelle
  imports Main "HOL-Library.DAList"
begin

section \<open>Go values used by keyword.go\<close>

text \<open>
  The run-time panics that the statements of keyword.go can raise: an assignment to an
  entry of a nil map, a call of a nil function value, and a slice expression whose bound
  is out of range.
\<close>

datatype panic = NilMapAssignment | NilFuncCall | SliceBoundsOutOfRange

text \<open>
  A Go map is a reference to a table with unique keys. The tables live in a store that
  is indexed by addresses; a map value is an address, or \<open>None\<close> for the nil map.
  The table itself is an association list with distinct keys, so that \<open>len\<close> and
  \<open>range\<close> can be computed.
\<close>

type_synonym addr = nat
type_synonym mapref = "addr option"
type_synonym 'v gomap = "(string, 'v) alist"
type_synonym 'v store = "addr \<Rightarrow> 'v gomap"

text \<open>\<open>v, ok := m[k]\<close>: a nil map reads as an empty one.\<close>

definition map_index :: "'v store \<Rightarrow> mapref \<Rightarrow> string \<Rightarrow> 'v option" where
  "map_index s m k = (case m of None \<Rightarrow> None | Some a \<Rightarrow> DAList.lookup (s a) k)"

text \<open>\<open>len(m)\<close>: zero for the nil map.\<close>

definition map_len :: "'v store \<Rightarrow> mapref \<Rightarrow> int" where
  "map_len s m = (case m of None \<Rightarrow> 0 | Some a \<Rightarrow> int (size (s a)))"

text \<open>\<open>m[k] = v\<close>: panics on the nil map, otherwise updates the table in place.\<close>

definition map_assign :: "'v store \<Rightarrow> mapref \<Rightarrow> string \<Rightarrow> 'v \<Rightarrow> panic + 'v store" where
  "map_assign s m k v =
     (case m of
        None \<Rightarrow> Inl NilMapAssignment
      | Some a \<Rightarrow> Inr (s(a := DAList.update k v (s a))))"

text \<open>
  The entries that \<open>for k, v := range m\<close> visits. Go leaves the order open; the
  model visits them in the order of the table. No entry is visited for the nil map.
\<close>

definition map_range :: "'v store \<Rightarrow> mapref \<Rightarrow> (string \<times> 'v) list" where
  "map_range s m = (case m of None \<Rightarrow> [] | Some a \<Rightarrow> DAList.impl_of (s a))"

text \<open>The loop \<open>for k, v := range src { dst[k] = v }\<close> over the entries of \<open>src\<close>.\<close>

fun range_assign :: "'v store \<Rightarrow> mapref \<Rightarrow> (string \<times> 'v) list \<Rightarrow> panic + 'v store" where
  "range_assign s m [] = Inr s"
| "range_assign s m ((k, v) # kvs) =
     (case map_assign s m k v of
        Inl e \<Rightarrow> Inl e
      | Inr s' \<Rightarrow> range_assign s' m kvs)"

section \<open>The error model\<close>

text \<open>
  \<open>KeyError\<close>: the invalid value is an \<open>interface{}\<close>; \<open>None\<close> is the nil
  interface.
\<close>

record 'd KeyError =
  PropertyPath :: string
  InvalidValue :: "'d option"
  Message :: string

text \<open>
  \<open>bytes.Replace(s, old, new, -1)\<close> for a non-empty \<open>old\<close>: every
  non-overlapping occurrence of \<open>old\<close>, found from the left, is replaced by \<open>new\<close>.
  (An empty \<open>old\<close> matches nothing here; keyword.go never passes one.)
\<close>

function bytes_Replace :: "string \<Rightarrow> string \<Rightarrow> string \<Rightarrow> string" where
  "bytes_Replace [] old new = []"
| "bytes_Replace (c # cs) old new =
     (if old \<noteq> [] \<and> take (length old) (c # cs) = old
      then new @ bytes_Replace (drop (length old) (c # cs)) old new
      else c # bytes_Replace cs old new)"
  by pat_completeness auto
termination
  by (relation "measure (\<lambda>(s, old, new). length s)") auto

text \<open>
  The slice expression \<open>bt[:n]\<close>. Go checks \<open>0 \<le> n \<le> cap(bt)\<close>; the capacity
  is at least the length, and the only use in keyword.go has \<open>n < len(bt)\<close>, so the
  upper bound is checked against the length.
\<close>

definition slice_to :: "string \<Rightarrow> int \<Rightarrow> panic + string" where
  "slice_to bt n =
     (if n < 0 \<or> int (length bt) < n then Inl SliceBoundsOutOfRange
      else Inr (take (nat n) bt))"

text \<open>
  \<open>InvalidValueString\<close>. The variable \<open>MaxKeywordErrStringLen\<close> is the first
  argument, and the encoder \<open>json.Marshal\<close> of the standard library is the second:
  it returns the bytes of the value or an error.
\<close>

definition InvalidValueString :: "int \<Rightarrow> ('d \<Rightarrow> 'e + string) \<Rightarrow> 'd \<Rightarrow> panic + string" where
  "InvalidValueString MaxKeywordErrStringLen json_Marshal data =
     (case json_Marshal data of
        Inl err \<Rightarrow> Inr []
      | Inr bt0 \<Rightarrow>
          (let bt = bytes_Replace bt0 [CHR 0x0A, CHR 0x0D] [CHR '' ''] in
           if MaxKeywordErrStringLen \<noteq> - 1 \<and> int (length bt) > MaxKeywordErrStringLen
           then (case slice_to bt MaxKeywordErrStringLen of
                   Inl p \<Rightarrow> Inl p
                 | Inr pre \<Rightarrow> Inr (pre @ ''...''))
           else Inr bt))"

text \<open>\<open>KeyError.Error\<close>, with \<open>fmt.Sprintf\<close> on \<open>%s\<close> verbs written as concatenation.\<close>

definition Error :: "int \<Rightarrow> ('d \<Rightarrow> 'e + string) \<Rightarrow> 'd KeyError \<Rightarrow> panic + string" where
  "Error MaxKeywordErrStringLen json_Marshal v =
     (if PropertyPath v \<noteq> [] \<and> InvalidValue v \<noteq> None
      then (case InvalidValueString MaxKeywordErrStringLen json_Marshal (the (InvalidValue v)) of
              Inl p \<Rightarrow> Inl p
            | Inr s \<Rightarrow> Inr (PropertyPath v @ '': '' @ s @ '' '' @ Message v))
      else if PropertyPath v \<noteq> []
      then Inr (PropertyPath v @ '': '' @ Message v)
      else Inr (Message v))"

section \<open>The keyword protocol\<close>

text \<open>
  Modelled from the spec: \<open>ValidationState\<close> is not part of keyword.go. The spec
  describes it as the per-run context that accumulates the \<open>KeyError\<close> list; only
  that list is kept.
\<close>

record 'd ValidationState =
  Errs :: "'d KeyError list"

text \<open>
  The interface \<open>Keyword\<close> as the record of its three methods. A method that
  mutates its argument returns the new value. \<open>jptr.Pointer\<close> is a list of tokens;
  \<open>'s\<close> is the type \<open>Schema\<close> and \<open>'r\<close> the type \<open>SchemaRegistry\<close>, both
  outside keyword.go. A nil \<open>*Schema\<close> is \<open>None\<close>. The context argument carries
  cancellation only and is left out.
\<close>

record ('d, 's, 'r) Keyword =
  ValidateKeyword :: "'d ValidationState \<Rightarrow> 'd \<Rightarrow> 'd ValidationState"
  Register :: "string \<Rightarrow> 'r \<Rightarrow> 'r"
  Resolve :: "string list \<Rightarrow> string \<Rightarrow> 's option"

text \<open>
  Modelled from the spec: \<open>NewVoid\<close> and the methods of the void keyword are not in
  keyword.go. The spec: "a total no-op: validates nothing, registers nothing, resolves
  nothing".
\<close>

definition NewVoid :: "('d, 's, 'r) Keyword" where
  "NewVoid = \<lparr>ValidateKeyword = (\<lambda>currentState data. currentState),
              Register = (\<lambda>uri registry. registry),
              Resolve = (\<lambda>pointer uri. None)\<rparr>"

text \<open>\<open>KeyMaker\<close> is a function value; \<open>None\<close> is the nil function.\<close>

type_synonym ('d, 's, 'r) KeyMaker = "(unit \<Rightarrow> ('d, 's, 'r) Keyword) option"

definition call_KeyMaker :: "('d, 's, 'r) KeyMaker \<Rightarrow> panic + ('d, 's, 'r) Keyword" where
  "call_KeyMaker maker = (case maker of None \<Rightarrow> Inl NilFuncCall | Some f \<Rightarrow> Inr (f ()))"

section \<open>The keyword registry\<close>

text \<open>The struct \<open>KeywordRegistry\<close>: three map values.\<close>

record KeywordRegistry =
  keywordRegistry :: mapref
  keywordOrder :: mapref
  keywordInsertOrder :: mapref

text \<open>
  The heap: the tables of the maps from names to makers, the tables of the maps from
  names to integers, the next unused address, and the package variable \<open>kr\<close>
  (\<open>None\<close> while it is nil). The mutex \<open>krLock\<close> is not modelled: calls run one
  after the other.
\<close>

record ('d, 's, 'r) heap =
  makers :: "('d, 's, 'r) KeyMaker store"
  ints :: "int store"
  brk :: addr
  kr :: "KeywordRegistry option"

text \<open>\<open>make(map[string]KeyMaker, n)\<close> and \<open>make(map[string]int, n)\<close>.\<close>

definition make_makers :: "('d, 's, 'r) heap \<Rightarrow> addr \<times> ('d, 's, 'r) heap" where
  "make_makers h = (brk h, h\<lparr>makers := (makers h)(brk h := DAList.empty), brk := Suc (brk h)\<rparr>)"

definition make_ints :: "('d, 's, 'r) heap \<Rightarrow> addr \<times> ('d, 's, 'r) heap" where
  "make_ints h = (brk h, h\<lparr>ints := (ints h)(brk h := DAList.empty), brk := Suc (brk h)\<rparr>)"

definition getGlobalKeywordRegistry ::
  "('d, 's, 'r) heap \<Rightarrow> KeywordRegistry \<times> ('d, 's, 'r) heap" where
  "getGlobalKeywordRegistry h =
     (case kr h of
        Some r \<Rightarrow> (r, h)
      | None \<Rightarrow>
          (let (a1, h1) = make_makers h;
               (a2, h2) = make_ints h1;
               (a3, h3) = make_ints h2;
               r = \<lparr>keywordRegistry = Some a1, keywordOrder = Some a2,
                    keywordInsertOrder = Some a3\<rparr>
           in (r, h3\<lparr>kr := Some r\<rparr>)))"

text \<open>
  \<open>Copy\<close>: three new maps, then the three loops. The entries of a source map are read
  in the heap in which the loop starts; the destination is a new map, so the loop does
  not change the map it ranges over.
\<close>

definition Copy ::
  "('d, 's, 'r) heap \<Rightarrow> KeywordRegistry \<Rightarrow> panic + KeywordRegistry \<times> ('d, 's, 'r) heap" where
  "Copy h r =
     (let (a1, h1) = make_makers h;
          (a2, h2) = make_ints h1;
          (a3, h3) = make_ints h2;
          dest = \<lparr>keywordRegistry = Some a1, keywordOrder = Some a2,
                  keywordInsertOrder = Some a3\<rparr>
      in case range_assign (makers h3) (keywordRegistry dest)
                (map_range (makers h3) (keywordRegistry r)) of
           Inl e \<Rightarrow> Inl e
         | Inr mk \<Rightarrow>
             (let h4 = h3\<lparr>makers := mk\<rparr>
              in case range_assign (ints h4) (keywordOrder dest)
                        (map_range (ints h4) (keywordOrder r)) of
                   Inl e \<Rightarrow> Inl e
                 | Inr io \<Rightarrow>
                     (let h5 = h4\<lparr>ints := io\<rparr>
                      in case range_assign (ints h5) (keywordInsertOrder dest)
                                (map_range (ints h5) (keywordInsertOrder r)) of
                           Inl e \<Rightarrow> Inl e
                         | Inr ii \<Rightarrow> Inr (dest, h5\<lparr>ints := ii\<rparr>))))"

definition copyGlobalKeywordRegistry ::
  "('d, 's, 'r) heap \<Rightarrow> panic + KeywordRegistry \<times> ('d, 's, 'r) heap" where
  "copyGlobalKeywordRegistry h = (let (r, h') = getGlobalKeywordRegistry h in Copy h' r)"

definition IsRegisteredKeyword :: "('d, 's, 'r) heap \<Rightarrow> KeywordRegistry \<Rightarrow> string \<Rightarrow> bool" where
  "IsRegisteredKeyword h r prop = (map_index (makers h) (keywordRegistry r) prop \<noteq> None)"

text \<open>
  \<open>GetKeyword\<close>. The index expression \<open>r.keywordRegistry[prop]\<close> gives the nil
  function for a missing key.
\<close>

definition GetKeyword ::
  "('d, 's, 'r) heap \<Rightarrow> KeywordRegistry \<Rightarrow> string \<Rightarrow> panic + ('d, 's, 'r) Keyword" where
  "GetKeyword h r prop =
     (if \<not> IsRegisteredKeyword h r prop then Inr NewVoid
      else call_KeyMaker
             (case map_index (makers h) (keywordRegistry r) prop of
                None \<Rightarrow> None
              | Some maker \<Rightarrow> maker))"

definition GetKeywordOrder :: "('d, 's, 'r) heap \<Rightarrow> KeywordRegistry \<Rightarrow> string \<Rightarrow> int" where
  "GetKeywordOrder h r prop =
     (case map_index (ints h) (keywordOrder r) prop of
        Some order \<Rightarrow> order
      | None \<Rightarrow> 1)"

definition GetKeywordInsertOrder :: "('d, 's, 'r) heap \<Rightarrow> KeywordRegistry \<Rightarrow> string \<Rightarrow> int" where
  "GetKeywordInsertOrder h r prop =
     (case map_index (ints h) (keywordInsertOrder r) prop of
        Some order \<Rightarrow> order
      | None \<Rightarrow> 1000)"

definition SetKeywordOrder ::
  "('d, 's, 'r) heap \<Rightarrow> KeywordRegistry \<Rightarrow> string \<Rightarrow> int \<Rightarrow> panic + ('d, 's, 'r) heap" where
  "SetKeywordOrder h r prop order =
     (case map_assign (ints h) (keywordOrder r) prop order of
        Inl e \<Rightarrow> Inl e
      | Inr io \<Rightarrow> Inr (h\<lparr>ints := io\<rparr>))"

definition notSupported :: "string list" where
  "notSupported = [''$vocabulary'', ''contentEncoding'', ''contentMediaType'',
     ''contentSchema'', ''deprecated'', ''definitions'', ''dependencies'']"

definition IsNotSupportedKeyword :: "KeywordRegistry \<Rightarrow> string \<Rightarrow> bool" where
  "IsNotSupportedKeyword r prop = (prop \<in> set notSupported)"

definition IsRegistryLoaded :: "('d, 's, 'r) heap \<Rightarrow> KeywordRegistry \<Rightarrow> bool" where
  "IsRegistryLoaded h r =
     (keywordRegistry r \<noteq> None \<and> map_len (makers h) (keywordRegistry r) > 0)"

text \<open>
  \<open>RegisterKeyword\<close>: the maker is stored, then the insert order is set to the
  length that the insert-order map has at that moment.
\<close>

definition RegisterKeyword ::
  "('d, 's, 'r) heap \<Rightarrow> KeywordRegistry \<Rightarrow> string \<Rightarrow> ('d, 's, 'r) KeyMaker
     \<Rightarrow> panic + ('d, 's, 'r) heap" where
  "RegisterKeyword h r prop maker =
     (case map_assign (makers h) (keywordRegistry r) prop maker of
        Inl e \<Rightarrow> Inl e
      | Inr mk \<Rightarrow>
          (let h1 = h\<lparr>makers := mk\<rparr>
           in case map_assign (ints h1) (keywordInsertOrder r) prop
                     (map_len (ints h1) (keywordInsertOrder r)) of
                Inl e \<Rightarrow> Inl e
              | Inr io \<Rightarrow> Inr (h1\<lparr>ints := io\<rparr>)))"

text \<open>The package-level functions work on the registry in \<open>kr\<close>.\<close>

definition global_SetKeywordOrder ::
  "('d, 's, 'r) heap \<Rightarrow> string \<Rightarrow> int \<Rightarrow> panic + ('d, 's, 'r) heap" where
  "global_SetKeywordOrder h prop order =
     (let (r, h') = getGlobalKeywordRegistry h in SetKeywordOrder h' r prop order)"

definition global_RegisterKeyword ::
  "('d, 's, 'r) heap \<Rightarrow> string \<Rightarrow> ('d, 's, 'r) KeyMaker \<Rightarrow> panic + ('d, 's, 'r) heap" where
  "global_RegisterKeyword h prop maker =
     (let (r, h') = getGlobalKeywordRegistry h in RegisterKeyword h' r prop maker)"

section \<open>Callers and observations\<close>

text \<open>
  A caller's sequence of mutating calls on one registry. A panic ends the sequence.
\<close>

datatype ('d, 's, 'r) call =
  Reg string "('d, 's, 'r) KeyMaker"
  | SetOrd string int

fun call_name :: "('d, 's, 'r) call \<Rightarrow> string" where
  "call_name (Reg prop maker) = prop"
| "call_name (SetOrd prop order) = prop"

fun run_call ::
  "('d, 's, 'r) heap \<Rightarrow> KeywordRegistry \<Rightarrow> ('d, 's, 'r) call \<Rightarrow> panic + ('d, 's, 'r) heap" where
  "run_call h r (Reg prop maker) = RegisterKeyword h r prop maker"
| "run_call h r (SetOrd prop order) = SetKeywordOrder h r prop order"

fun run_calls ::
  "('d, 's, 'r) heap \<Rightarrow> KeywordRegistry \<Rightarrow> ('d, 's, 'r) call list
     \<Rightarrow> panic + ('d, 's, 'r) heap" where
  "run_calls h r [] = Inr h"
| "run_calls h r (c # cs) =
     (case run_call h r c of
        Inl e \<Rightarrow> Inl e
      | Inr h' \<Rightarrow> run_calls h' r cs)"

text \<open>The names that a sequence of calls passes to \<open>RegisterKeyword\<close>, in order.\<close>

fun reg_names :: "('d, 's, 'r) call list \<Rightarrow> string list" where
  "reg_names [] = []"
| "reg_names (Reg prop maker # cs) = prop # reg_names cs"
| "reg_names (SetOrd prop order # cs) = reg_names cs"

text \<open>The four lookups of a registry at one name.\<close>

definition lookups ::
  "('d, 's, 'r) heap \<Rightarrow> KeywordRegistry \<Rightarrow> string
     \<Rightarrow> bool \<times> (panic + ('d, 's, 'r) Keyword) \<times> int \<times> int" where
  "lookups h r prop =
     (IsRegisteredKeyword h r prop, GetKeyword h r prop, GetKeywordOrder h r prop,
      GetKeywordInsertOrder h r prop)"

text \<open>
  A registry is live in a heap when each of its maps is nil or has been allocated.
\<close>

definition live_ref :: "addr \<Rightarrow> mapref \<Rightarrow> bool" where
  "live_ref b m = (case m of None \<Rightarrow> True | Some a \<Rightarrow> a < b)"

definition live :: "('d, 's, 'r) heap \<Rightarrow> KeywordRegistry \<Rightarrow> bool" where
  "live h r =
     (live_ref (brk h) (keywordRegistry r) \<and> live_ref (brk h) (keywordOrder r) \<and>
      live_ref (brk h) (keywordInsertOrder r))"

text \<open>
  Two registries are separate when no map of the one is a map of the other. The maps
  for makers and the maps for integers are in different stores.
\<close>

definition apart :: "mapref \<Rightarrow> mapref \<Rightarrow> bool" where
  "apart m m' = (case m of None \<Rightarrow> True | Some a \<Rightarrow> m' \<noteq> Some a)"

definition separate :: "KeywordRegistry \<Rightarrow> KeywordRegistry \<Rightarrow> bool" where
  "separate r r' =
     (apart (keywordRegistry r) (keywordRegistry r') \<and>
      apart (keywordOrder r) (keywordOrder r') \<and>
      apart (keywordOrder r) (keywordInsertOrder r') \<and>
      apart (keywordInsertOrder r) (keywordOrder r') \<and>
      apart (keywordInsertOrder r) (keywordInsertOrder r'))"

text \<open>The heap at program start: nothing allocated, \<open>kr\<close> nil.\<close>

definition start :: "('d, 's, 'r) heap" where
  "start = \<lparr>makers = (\<lambda>a. DAList.empty), ints = (\<lambda>a. DAList.empty), brk = 0, kr = None\<rparr>"

section \<open>Sample inputs\<close>

text \<open>
  An encoder for the examples: the JSON text of a string that needs no escaping is the
  string between double quotes.
\<close>

definition quote_Marshal :: "string \<Rightarrow> unit + string" where
  "quote_Marshal s = Inr ([CHR 0x22] @ s @ [CHR 0x22])"



text \<open>
  Two keywords that differ in what they resolve to, and their makers. The schema type
  is \<open>nat\<close> here.
\<close>

definition kw1 :: "(string, nat, unit) Keyword" where
  "kw1 = \<lparr>ValidateKeyword = (\<lambda>currentState data. currentState),
           Register = (\<lambda>uri registry. registry),
           Resolve = (\<lambda>pointer uri. Some 1)\<rparr>"

definition kw2 :: "(string, nat, unit) Keyword" where
  "kw2 = \<lparr>ValidateKeyword = (\<lambda>currentState data. currentState),
           Register = (\<lambda>uri registry. registry),
           Resolve = (\<lambda>pointer uri. Some 2)\<rparr>"

definition maker1 :: "(string, nat, unit) KeyMaker" where
  "maker1 = Some (\<lambda>u. kw1)"

definition maker2 :: "(string, nat, unit) KeyMaker" where
  "maker2 = Some (\<lambda>u. kw2)"

text \<open>
  The registry that \<open>getGlobalKeywordRegistry\<close> creates at program start, and the
  heap it leaves.
\<close>

definition registry0 :: KeywordRegistry where
  "registry0 = \<lparr>keywordRegistry = Some 0, keywordOrder = Some 1, keywordInsertOrder = Some 2\<rparr>"

definition heap0 :: "(string, nat, unit) heap" where
  "heap0 = \<lparr>makers = (\<lambda>a. DAList.empty), ints = (\<lambda>a. DAList.empty), brk = 3,
             kr = Some registry0\<rparr>"

text \<open>
  The heap after \<open>RegisterKeyword("type", maker1)\<close> and
  \<open>SetKeywordOrder("type", 5)\<close> on that registry.
\<close>

definition heap1 :: "(string, nat, unit) heap" where
  "heap1 = \<lparr>makers = (\<lambda>a. DAList.empty)(0 := DAList.update ''type'' maker1 DAList.empty),
             ints = (\<lambda>a. DAList.empty)
               (1 := DAList.update ''type'' 5 DAList.empty,
                2 := DAList.update ''type'' 0 DAList.empty),
             brk = 3, kr = Some registry0\<rparr>"

text \<open>
  Any number of different names (\<open>k\<close>, \<open>kk\<close>, \<open>kkk\<close>, ...), the calls that
  register the first \<open>n\<close> of them, and the insert order that a name has in the
  registry of program start after a sequence of calls.
\<close>

definition name_of :: "nat \<Rightarrow> string" where
  "name_of i = replicate (Suc i) CHR ''k''"

definition many_calls :: "nat \<Rightarrow> (string, nat, unit) call list" where
  "many_calls n = map (\<lambda>i. Reg (name_of i) maker1) [0..<n]"

definition insert_order_after :: "(string, nat, unit) call list \<Rightarrow> string \<Rightarrow> panic + int" where
  "insert_order_after cs name =
     (case run_calls heap0 registry0 cs of
        Inl e \<Rightarrow> Inl e
      | Inr h \<Rightarrow> Inr (GetKeywordInsertOrder h registry0 name))"

section \<open>Properties of the error model\<close>

lemma bytes_Replace_without_LF:
  "CHR 0x0A \<notin> set bt \<Longrightarrow> bytes_Replace bt [CHR 0x0A, CHR 0x0D] new = bt"
  by (induction bt) auto

text \<open>
  The replacement step alone: it finds the two bytes LF CR in this order, and nothing
  else.
\<close>

lemma bytes_Replace_pair_only:
  "bytes_Replace [CHR ''a'', CHR 0x0A, CHR 0x0D, CHR ''b''] [CHR 0x0A, CHR 0x0D] [CHR '' '']
     = ''a b''"
  "bytes_Replace [CHR ''a'', CHR 0x0A, CHR ''b''] [CHR 0x0A, CHR 0x0D] [CHR '' '']
     = [CHR ''a'', CHR 0x0A, CHR ''b'']"
  by simp_all


text \<open>
  C5, as amended. Let \<open>bt\<close> be the serialized text of the value; it holds no raw
  newline byte, as the output of \<open>json.Marshal\<close> never does. If
  \<open>MaxKeywordErrStringLen\<close> is not negative and \<open>bt\<close> is longer than it, the
  result is the prefix of \<open>bt\<close> of that length followed by three dots; if
  \<open>MaxKeywordErrStringLen\<close> is \<open>-1\<close>, the result is \<open>bt\<close> unmodified.
\<close>

theorem InvalidValueString_truncation:
  "json_Marshal data = Inr bt \<Longrightarrow> CHR 0x0A \<notin> set bt \<Longrightarrow>
   (0 \<le> m \<and> m < int (length bt) \<longrightarrow>
      InvalidValueString m json_Marshal data = Inr (take (nat m) bt @ ''...'')) \<and>
   (m = - 1 \<longrightarrow> InvalidValueString m json_Marshal data = Inr bt)"
  by (auto simp: InvalidValueString_def slice_to_def Let_def bytes_Replace_without_LF)

theorem InvalidValueString_truncation_witness:
  "InvalidValueString 5 quote_Marshal ''hello world'' = Inr (CHR 0x22 # ''hell...'') \<and>
   InvalidValueString (- 1) quote_Marshal ''hello world''
     = Inr (CHR 0x22 # ''hello world'' @ [CHR 0x22])"
proof -
  let ?bt = "CHR 0x22 # ''hello world'' @ [CHR 0x22]"
  have enc: "quote_Marshal ''hello world'' = Inr ?bt"
    by (simp add: quote_Marshal_def)
  have no_LF: "CHR 0x0A \<notin> set ?bt"
    by simp
  show ?thesis
    using InvalidValueString_truncation
        [where json_Marshal = quote_Marshal and data = "''hello world''" and m = 5,
          OF enc no_LF]
      InvalidValueString_truncation
        [where json_Marshal = quote_Marshal and data = "''hello world''" and m = "- 1",
          OF enc no_LF]
    by simp
qed

text \<open>
  C5 as stated fails for a limit below \<open>-1\<close>. With
  \<open>MaxKeywordErrStringLen = -2\<close> the limit is not \<open>-1\<close> and the serialized text
  of \<open>hello world\<close> is longer than it, and the call panics instead of returning a
  prefix and three dots.
\<close>

theorem InvalidValueString_truncation_counterexample:
  "InvalidValueString (- 2) quote_Marshal ''hello world'' = Inl SliceBoundsOutOfRange"
  by (simp add: InvalidValueString_def slice_to_def quote_Marshal_def)

text \<open>
  C6. \<open>Error\<close> gives the path, a colon, the rendered value and the message when the
  path is not empty and the value is present (and \<open>InvalidValueString\<close> returns);
  the path, a colon and the message when only the path is present; the message alone
  when the path is empty. The error with the message \<open>bad\<close> alone renders as
  \<open>bad\<close>.
\<close>

theorem KeyError_Error_rendering:
  "(PropertyPath v \<noteq> [] \<and> InvalidValue v = Some d \<and>
      InvalidValueString m json_Marshal d = Inr s \<longrightarrow>
      Error m json_Marshal v = Inr (PropertyPath v @ '': '' @ s @ '' '' @ Message v)) \<and>
   (PropertyPath v \<noteq> [] \<and> InvalidValue v = None \<longrightarrow>
      Error m json_Marshal v = Inr (PropertyPath v @ '': '' @ Message v)) \<and>
   (PropertyPath v = [] \<longrightarrow> Error m json_Marshal v = Inr (Message v)) \<and>
   Error m json_Marshal \<lparr>PropertyPath = [], InvalidValue = None, Message = ''bad''\<rparr>
     = Inr ''bad''"
  by (simp add: Error_def)

theorem KeyError_Error_rendering_witness:
  "Error 20 quote_Marshal
     \<lparr>PropertyPath = ''/a/b'', InvalidValue = Some ''x'', Message = ''too short''\<rparr>
     = Inr (''/a/b: '' @ [CHR 0x22, CHR ''x'', CHR 0x22] @ '' too short'') \<and>
   Error 20 quote_Marshal
     \<lparr>PropertyPath = ''/a/b'', InvalidValue = None, Message = ''too short''\<rparr>
     = Inr ''/a/b: too short'' \<and>
   Error 20 quote_Marshal
     \<lparr>PropertyPath = [], InvalidValue = Some ''x'', Message = ''too short''\<rparr>
     = Inr ''too short''"
proof -
  have ivs: "InvalidValueString 20 quote_Marshal ''x'' = Inr [CHR 0x22, CHR ''x'', CHR 0x22]"
    by (simp add: InvalidValueString_def quote_Marshal_def)
  show ?thesis
    using ivs
      KeyError_Error_rendering [of
        "\<lparr>PropertyPath = ''/a/b'', InvalidValue = Some ''x'', Message = ''too short''\<rparr>"
        "''x''" 20 quote_Marshal "[CHR 0x22, CHR ''x'', CHR 0x22]"]
      KeyError_Error_rendering [of
        "\<lparr>PropertyPath = ''/a/b'', InvalidValue = None, Message = ''too short''\<rparr>"
        "''x''" 20 quote_Marshal "[]"]
      KeyError_Error_rendering [of
        "\<lparr>PropertyPath = [], InvalidValue = Some ''x'', Message = ''too short''\<rparr>"
        "''x''" 20 quote_Marshal "[]"]
    by simp
qed



text \<open>
  C9. When the encoder fails, \<open>InvalidValueString\<close> returns the empty string: it
  neither panics nor hands the encoder's error on.
\<close>

theorem InvalidValueString_Marshal_error:
  "json_Marshal data = Inl err \<Longrightarrow> InvalidValueString m json_Marshal data = Inr []"
  by (simp add: InvalidValueString_def)

theorem InvalidValueString_Marshal_error_witness:
  "InvalidValueString 20 Inl ''unsupported'' = Inr []"
  using InvalidValueString_Marshal_error [of Inl "''unsupported''" "''unsupported''" 20]
  by simp

text \<open>
  C10. With \<open>MaxKeywordErrStringLen = -1\<close> or \<open>MaxKeywordErrStringLen \<ge> 0\<close> the
  call returns a string for every value. With any setting below \<open>-1\<close> every value
  that the encoder accepts reaches the slice expression with a negative bound, and the
  call panics; a value with a non-empty serialized text is one of them.
\<close>

theorem InvalidValueString_total_iff_limit_ok:
  "((m = - 1 \<or> 0 \<le> m) \<longrightarrow> (\<exists>s. InvalidValueString m json_Marshal data = Inr s)) \<and>
   (m < - 1 \<longrightarrow> json_Marshal data = Inr bt \<longrightarrow>
      InvalidValueString m json_Marshal data = Inl SliceBoundsOutOfRange)"
  by (auto simp: InvalidValueString_def slice_to_def Let_def split: sum.splits)

theorem InvalidValueString_total_iff_limit_ok_witness:
  "(\<exists>s. InvalidValueString 20 quote_Marshal ''abc'' = Inr s) \<and>
   InvalidValueString (- 2) quote_Marshal ''abc'' = Inl SliceBoundsOutOfRange"
proof -
  have enc: "quote_Marshal ''abc'' = Inr (CHR 0x22 # ''abc'' @ [CHR 0x22])"
    by (simp add: quote_Marshal_def)
  show ?thesis
    using enc InvalidValueString_total_iff_limit_ok [of 20 quote_Marshal "''abc''"]
      InvalidValueString_total_iff_limit_ok
        [of "- 2" quote_Marshal "''abc''" "CHR 0x22 # ''abc'' @ [CHR 0x22]"]
    by simp
qed

section \<open>Properties of Go maps and of the heap\<close>

lemma gomap_size_empty: "size (DAList.empty :: ('k, 'v) alist) = 0"
  by (simp add: size_alist_def empty.rep_eq)

lemma gomap_size_update:
  "size (DAList.update k v m) = (if DAList.lookup m k = None then Suc (size m) else size m)"
proof -
  let ?al = "DAList.impl_of m"
  have "length (AList.update k v ?al) = length (map fst (AList.update k v ?al))"
    by simp
  also have "\<dots> = (if k \<in> set (map fst ?al) then length ?al else Suc (length ?al))"
    by (simp only: update_keys) simp
  finally show ?thesis
    by (simp add: size_alist_def update.rep_eq lookup.rep_eq map_of_eq_None_iff)
qed

lemma range_assign_Some:
  "range_assign s (Some a) kvs = Inr (s(a := fold (\<lambda>(k, v). DAList.update k v) kvs (s a)))"
  by (induction kvs arbitrary: s) (auto simp: map_assign_def)

lemma lookup_fold_update:
  "distinct (map fst kvs) \<Longrightarrow>
   DAList.lookup (fold (\<lambda>(k, v). DAList.update k v) kvs d) k =
     (case map_of kvs k of Some v \<Rightarrow> Some v | None \<Rightarrow> DAList.lookup d k)"
proof (induction kvs arbitrary: d)
  case Nil
  then show ?case by simp
next
  case (Cons kv kvs)
  obtain k0 v0 where kv: "kv = (k0, v0)" by (cases kv)
  from Cons.prems kv have fresh: "map_of kvs k0 = None" and dist: "distinct (map fst kvs)"
    by (auto simp: map_of_eq_None_iff)
  show ?case
    using Cons.IH [OF dist, of "DAList.update k0 v0 d"] fresh kv
    by (auto simp: DAList.lookup_update split: option.splits)
qed

lemma lookup_copied_table:
  "DAList.lookup (fold (\<lambda>(k, v). DAList.update k v) (DAList.impl_of m) DAList.empty) k
     = DAList.lookup m k"
  using lookup_fold_update [of "DAList.impl_of m" DAList.empty k]
  by (simp add: lookup.rep_eq empty.rep_eq split: option.splits)

text \<open>
  Go may visit the entries in any order: every list that holds each entry of the table
  once gives a table with the same lookups.
\<close>

lemma range_order_irrelevant:
  assumes "distinct (map fst kvs)" and "set kvs = set (DAList.impl_of m)"
  shows "DAList.lookup (fold (\<lambda>(k, v). DAList.update k v) kvs DAList.empty) k
           = DAList.lookup m k"
proof -
  have "map_of kvs = map_of (DAList.impl_of m)"
    using assms by (simp add: map_of_inject_set)
  with lookup_fold_update [OF assms(1), of DAList.empty k] show ?thesis
    by (simp add: lookup.rep_eq empty.rep_eq split: option.splits)
qed

lemma map_index_copied:
  "map_index (s(a := fold (\<lambda>(k, v). DAList.update k v) (map_range s0 m) DAList.empty)) (Some a) k
     = map_index s0 m k"
  by (cases m) (simp_all add: map_index_def map_range_def lookup_copied_table)

lemma map_index_skip:
  "a \<noteq> b \<Longrightarrow> map_index (s(b := t)) (Some a) k = map_index s (Some a) k"
  by (simp add: map_index_def)

lemma map_index_other:
  "live_ref a m \<Longrightarrow> map_index (s(a := t)) m k = map_index s m k"
  by (cases m) (auto simp: map_index_def live_ref_def)

lemma map_range_other:
  "live_ref a m \<Longrightarrow> map_range (s(a := t)) m = map_range s m"
  by (cases m) (auto simp: map_range_def live_ref_def)

lemma live_ref_mono: "live_ref a m \<Longrightarrow> a \<le> b \<Longrightarrow> live_ref b m"
  by (cases m) (auto simp: live_ref_def)

lemma Copy_result:
  assumes "live h r"
  shows "Copy h r =
    Inr (\<lparr>keywordRegistry = Some (brk h), keywordOrder = Some (Suc (brk h)),
          keywordInsertOrder = Some (Suc (Suc (brk h)))\<rparr>,
         h\<lparr>makers := (makers h)
              (brk h := fold (\<lambda>(k, v). DAList.update k v)
                 (map_range (makers h) (keywordRegistry r)) DAList.empty),
           ints := (ints h)
              (Suc (brk h) := fold (\<lambda>(k, v). DAList.update k v)
                 (map_range (ints h) (keywordOrder r)) DAList.empty,
               Suc (Suc (brk h)) := fold (\<lambda>(k, v). DAList.update k v)
                 (map_range (ints h) (keywordInsertOrder r)) DAList.empty),
           brk := Suc (Suc (Suc (brk h)))\<rparr>)"
proof -
  from assms have l1: "live_ref (brk h) (keywordRegistry r)"
    and l2: "live_ref (brk h) (keywordOrder r)"
    and l3: "live_ref (brk h) (keywordInsertOrder r)"
    by (simp_all add: live_def)
  have l2': "live_ref (Suc (brk h)) (keywordOrder r)"
    and l3': "live_ref (Suc (brk h)) (keywordInsertOrder r)"
    and l3'': "live_ref (Suc (Suc (brk h))) (keywordInsertOrder r)"
    and l2'': "live_ref (Suc (Suc (brk h))) (keywordOrder r)"
    using l2 l3 by (auto intro: live_ref_mono)
  show ?thesis
    by (simp add: Copy_def make_makers_def make_ints_def range_assign_Some
        map_range_other l1 l2 l3 l2' l3' l3'' l2'')
qed

lemma lookups_cong:
  assumes "map_index (makers h) (keywordRegistry r) p = map_index (makers h') (keywordRegistry r') p"
    and "map_index (ints h) (keywordOrder r) p = map_index (ints h') (keywordOrder r') p"
    and "map_index (ints h) (keywordInsertOrder r) p = map_index (ints h') (keywordInsertOrder r') p"
  shows "lookups h r p = lookups h' r' p"
  using assms
  by (simp add: lookups_def IsRegisteredKeyword_def GetKeyword_def GetKeywordOrder_def
      GetKeywordInsertOrder_def)

lemma map_assign_frame:
  "map_assign s m' k v = Inr s' \<Longrightarrow> apart m m' \<Longrightarrow> map_index s' m p = map_index s m p"
  by (cases m; cases m') (auto simp: map_assign_def apart_def map_index_def)

lemma run_call_frame:
  assumes "run_call h r' c = Inr h'" and "separate r r'"
  shows "map_index (makers h') (keywordRegistry r) p = map_index (makers h) (keywordRegistry r) p \<and>
         map_index (ints h') (keywordOrder r) p = map_index (ints h) (keywordOrder r) p \<and>
         map_index (ints h') (keywordInsertOrder r) p = map_index (ints h) (keywordInsertOrder r) p"
proof (cases c)
  case (Reg name maker)
  with assms(1) obtain mk io where
    mk: "map_assign (makers h) (keywordRegistry r') name maker = Inr mk"
    and io: "map_assign (ints h) (keywordInsertOrder r') name
               (map_len (ints h) (keywordInsertOrder r')) = Inr io"
    and h': "h' = h\<lparr>makers := mk, ints := io\<rparr>"
    by (auto simp: RegisterKeyword_def split: sum.splits)
  from assms(2) show ?thesis
    using map_assign_frame [OF mk] map_assign_frame [OF io]
    by (simp add: h' separate_def)
next
  case (SetOrd name order)
  with assms(1) obtain io where
    io: "map_assign (ints h) (keywordOrder r') name order = Inr io"
    and h': "h' = h\<lparr>ints := io\<rparr>"
    by (auto simp: SetKeywordOrder_def split: sum.splits)
  from assms(2) show ?thesis
    using map_assign_frame [OF io]
    by (simp add: h' separate_def)
qed

lemma run_calls_frame:
  "run_calls h r' cs = Inr h' \<Longrightarrow> separate r r' \<Longrightarrow> lookups h' r p = lookups h r p"
proof (induction cs arbitrary: h)
  case Nil
  then show ?case by simp
next
  case (Cons c cs)
  from Cons.prems(1) obtain h1 where
    c: "run_call h r' c = Inr h1" and cs: "run_calls h1 r' cs = Inr h'"
    by (auto split: sum.splits)
  have "lookups h' r p = lookups h1 r p"
    by (rule Cons.IH [OF cs Cons.prems(2)])
  also have "\<dots> = lookups h r p"
    using run_call_frame [OF c Cons.prems(2), of p] by (intro lookups_cong) simp_all
  finally show ?case .
qed

lemma run_call_allocated:
  assumes "keywordRegistry r \<noteq> None" "keywordOrder r \<noteq> None" "keywordInsertOrder r \<noteq> None"
  shows "\<exists>h'. run_call h r c = Inr h'"
  using assms
  by (cases c) (auto simp: RegisterKeyword_def SetKeywordOrder_def map_assign_def)

lemma run_calls_allocated:
  assumes "keywordRegistry r \<noteq> None" "keywordOrder r \<noteq> None" "keywordInsertOrder r \<noteq> None"
  shows "\<exists>h'. run_calls h r cs = Inr h'"
proof (induction cs arbitrary: h)
  case Nil
  then show ?case by simp
next
  case (Cons c cs)
  from run_call_allocated [OF assms] obtain h1 where "run_call h r c = Inr h1"
    by blast
  with Cons.IH [of h1] show ?case by simp
qed

text \<open>
  The registries that the code creates are live, and stay so: the registry of
  \<open>getGlobalKeywordRegistry\<close>, a copy and its source, and any registry across
  calls that mutate maps.
\<close>

lemma run_call_brk: "run_call h r' c = Inr h' \<Longrightarrow> brk h' = brk h"
  by (cases c)
    (auto simp: RegisterKeyword_def SetKeywordOrder_def Let_def split: sum.splits)

lemma live_after_run_calls:
  "run_calls h r' cs = Inr h' \<Longrightarrow> live h r \<Longrightarrow> live h' r"
proof (induction cs arbitrary: h)
  case Nil
  then show ?case by simp
next
  case (Cons c cs)
  from Cons.prems(1) obtain h1 where
    c: "run_call h r' c = Inr h1" and cs: "run_calls h1 r' cs = Inr h'"
    by (auto split: sum.splits)
  from Cons.prems(2) run_call_brk [OF c] have "live h1 r"
    by (simp add: live_def)
  with Cons.IH [OF cs] show ?case .
qed

lemma live_after_Copy:
  assumes "live h r" and "Copy h r = Inr (r', h')"
  shows "live h' r \<and> live h' r'"
  using assms Copy_result [OF assms(1)]
  by (auto simp: live_def live_ref_def split: option.splits)

lemma live_new_registry:
  assumes "kr h = None" and "getGlobalKeywordRegistry h = (r, h0)"
  shows "live h0 r"
  using assms
  by (auto simp: getGlobalKeywordRegistry_def make_makers_def make_ints_def Let_def live_def
      live_ref_def)

section \<open>Properties of the sample inputs\<close>

lemma start_registry:
  "getGlobalKeywordRegistry (start :: (string, nat, unit) heap) = (registry0, heap0)"
  by (simp add: getGlobalKeywordRegistry_def start_def make_makers_def make_ints_def
      registry0_def heap0_def Let_def fun_eq_iff numeral_2_eq_2 numeral_3_eq_3)

lemma heap1_reached:
  "run_calls heap0 registry0 [Reg ''type'' maker1, SetOrd ''type'' 5] = Inr heap1"
  by (simp add: heap0_def heap1_def registry0_def RegisterKeyword_def SetKeywordOrder_def
      map_assign_def map_len_def gomap_size_empty fun_upd_twist)

lemma live_heap1: "live heap1 registry0"
  by (simp add: live_def live_ref_def heap1_def registry0_def)

lemma lookups_heap1_type: "lookups heap1 registry0 ''type'' = (True, Inr kw1, 5, 0)"
  by (simp add: lookups_def IsRegisteredKeyword_def GetKeyword_def GetKeywordOrder_def
      GetKeywordInsertOrder_def map_index_def heap1_def registry0_def call_KeyMaker_def
      maker1_def)

lemma lookups_heap1_enum: "lookups heap1 registry0 ''enum'' = (False, Inr NewVoid, 1, 1000)"
  by (simp add: lookups_def IsRegisteredKeyword_def GetKeyword_def GetKeywordOrder_def
      GetKeywordInsertOrder_def map_index_def heap1_def registry0_def DAList.lookup_update)

lemma reg_names_append: "reg_names (xs @ ys) = reg_names xs @ reg_names ys"
  by (induction xs rule: reg_names.induct) simp_all

lemma reg_names_many_calls: "reg_names (many_calls n) = map name_of [0..<n]"
  by (induction n) (simp_all add: many_calls_def reg_names_append)

lemma call_names_many_calls: "call_name ` set (many_calls n) = name_of ` {0..<n}"
proof -
  have "call_name ` set (many_calls n) = (\<lambda>i. call_name (Reg (name_of i) maker1)) ` {0..<n}"
    by (simp add: many_calls_def image_image)
  then show ?thesis by simp
qed

lemma name_of_inj: "name_of i = name_of j \<Longrightarrow> i = j"
proof -
  assume "name_of i = name_of j"
  then have "length (name_of i) = length (name_of j)" by simp
  then show "i = j" by (simp add: name_of_def)
qed

lemma distinct_names: "distinct (map name_of [0..<n])"
  by (auto simp: distinct_map inj_on_def dest: name_of_inj)

section \<open>Properties of the registry\<close>

text \<open>
  The zero value of \<open>KeywordRegistry\<close> has three nil maps: it can be read, and
  every write to it panics.
\<close>

lemma zero_registry:
  assumes "r = \<lparr>keywordRegistry = None, keywordOrder = None, keywordInsertOrder = None\<rparr>"
  shows "lookups h r p = (False, Inr NewVoid, 1, 1000)"
    and "RegisterKeyword h r p maker = Inl NilMapAssignment"
    and "SetKeywordOrder h r p order = Inl NilMapAssignment"
    and "\<not> IsRegistryLoaded h r"
  using assms
  by (simp_all add: lookups_def IsRegisteredKeyword_def GetKeyword_def GetKeywordOrder_def
      GetKeywordInsertOrder_def map_index_def RegisterKeyword_def SetKeywordOrder_def
      map_assign_def IsRegistryLoaded_def)

lemma IsNotSupportedKeyword_examples:
  "IsNotSupportedKeyword r ''contentMediaType''" "\<not> IsNotSupportedKeyword r ''properties''"
  by (simp_all add: IsNotSupportedKeyword_def notSupported_def)

lemma map_assign_other_key:
  "map_assign s m' k v = Inr s' \<Longrightarrow> k \<noteq> p \<Longrightarrow> map_index s' m p = map_index s m p"
  by (cases m; cases m') (auto simp: map_assign_def map_index_def DAList.lookup_update)

lemma run_call_other_name:
  assumes "run_call h r c = Inr h'" and "call_name c \<noteq> p"
  shows "map_index (ints h') m p = map_index (ints h) m p"
proof (cases c)
  case (Reg name maker)
  with assms(1) obtain mk io where
    io: "map_assign (ints h) (keywordInsertOrder r) name
               (map_len (ints h) (keywordInsertOrder r)) = Inr io"
    and h': "h' = h\<lparr>makers := mk, ints := io\<rparr>"
    by (auto simp: RegisterKeyword_def split: sum.splits)
  from assms(2) Reg show ?thesis
    using map_assign_other_key [OF io, of p m] by (simp add: h')
next
  case (SetOrd name order)
  with assms(1) obtain io where
    io: "map_assign (ints h) (keywordOrder r) name order = Inr io"
    and h': "h' = h\<lparr>ints := io\<rparr>"
    by (auto simp: SetKeywordOrder_def split: sum.splits)
  from assms(2) SetOrd show ?thesis
    using map_assign_other_key [OF io, of p m] by (simp add: h')
qed

lemma run_calls_other_names:
  "run_calls h r cs = Inr h' \<Longrightarrow> p \<notin> call_name ` set cs \<Longrightarrow>
   map_index (ints h') m p = map_index (ints h) m p"
proof (induction cs arbitrary: h)
  case Nil
  then show ?case by simp
next
  case (Cons c cs)
  from Cons.prems(1) obtain h1 where
    c: "run_call h r c = Inr h1" and cs: "run_calls h1 r cs = Inr h'"
    by (auto split: sum.splits)
  from Cons.prems(2) have "call_name c \<noteq> p" and "p \<notin> call_name ` set cs"
    by auto
  then show ?case
    using Cons.IH [OF cs] run_call_other_name [OF c] by simp
qed

lemma new_registry:
  assumes "kr h = None" and "getGlobalKeywordRegistry h = (r, h0)"
  shows "keywordRegistry r \<noteq> None \<and> keywordOrder r \<noteq> None \<and> keywordInsertOrder r \<noteq> None \<and>
         map_index (makers h0) (keywordRegistry r) p = None \<and>
         map_index (ints h0) (keywordOrder r) p = None \<and>
         map_index (ints h0) (keywordInsertOrder r) p = None"
  using assms
  by (auto simp: getGlobalKeywordRegistry_def make_makers_def make_ints_def map_index_def
      Let_def)

lemma unseen_name_defaults:
  assumes "kr h = None" and "getGlobalKeywordRegistry h = (r, h0)"
    and "name \<notin> call_name ` set cs"
  shows "\<exists>h'. run_calls h0 r cs = Inr h' \<and>
           GetKeywordOrder h' r name = 1 \<and> GetKeywordInsertOrder h' r name = 1000"
proof -
  note new = new_registry [OF assms(1,2), of name]
  from new obtain h' where run: "run_calls h0 r cs = Inr h'"
    using run_calls_allocated [of r h0 cs] by blast
  have "map_index (ints h') (keywordOrder r) name = None"
    and "map_index (ints h') (keywordInsertOrder r) name = None"
    using run_calls_other_names [OF run assms(3)] new by simp_all
  then have "GetKeywordOrder h' r name = 1 \<and> GetKeywordInsertOrder h' r name = 1000"
    by (simp add: GetKeywordOrder_def GetKeywordInsertOrder_def)
  with run show ?thesis by blast
qed

lemma RegisterKeyword_installs:
  assumes "RegisterKeyword h r name maker = Inr h'"
  shows "IsRegisteredKeyword h' r name \<and> GetKeyword h' r name = call_KeyMaker maker \<and>
         GetKeywordInsertOrder h' r name = map_len (ints h) (keywordInsertOrder r)"
  using assms
  by (cases "keywordRegistry r"; cases "keywordInsertOrder r")
    (auto simp: RegisterKeyword_def map_assign_def IsRegisteredKeyword_def GetKeyword_def
      GetKeywordInsertOrder_def map_index_def)

lemma run_calls_insert_order:
  assumes r: "keywordInsertOrder r = Some a" "keywordOrder r \<noteq> Some a"
      "keywordRegistry r \<noteq> None" "keywordOrder r \<noteq> None"
  shows "size (ints h a) = length ns \<Longrightarrow>
     (\<forall>i<length ns. DAList.lookup (ints h a) (ns ! i) = Some (int i)) \<Longrightarrow>
     (\<forall>n. n \<notin> set ns \<longrightarrow> DAList.lookup (ints h a) n = None) \<Longrightarrow>
     distinct (ns @ reg_names cs) \<Longrightarrow>
     \<exists>h'. run_calls h r cs = Inr h' \<and>
       (\<forall>i<length (ns @ reg_names cs).
          DAList.lookup (ints h' a) ((ns @ reg_names cs) ! i) = Some (int i))"
proof (induction cs arbitrary: h ns)
  case Nil
  then show ?case by simp
next
  case (Cons c cs)
  show ?case
  proof (cases c)
    case (Reg name maker)
    from r obtain b where b: "keywordRegistry r = Some b" by auto
    define h1 where "h1 = h\<lparr>makers := (makers h)(b := DAList.update name maker (makers h b)),
      ints := (ints h)(a := DAList.update name (int (size (ints h a))) (ints h a))\<rparr>"
    have step: "run_call h r c = Inr h1"
      by (simp add: Reg RegisterKeyword_def map_assign_def map_len_def r(1) b h1_def)
    from Cons.prems(4) Reg have new: "name \<notin> set ns" and
      dist: "distinct ((ns @ [name]) @ reg_names cs)"
      by auto
    from new Cons.prems(3) have absent: "DAList.lookup (ints h a) name = None"
      by simp
    have tab: "ints h1 a = DAList.update name (int (length ns)) (ints h a)"
      by (simp add: h1_def Cons.prems(1))
    have size1: "size (ints h1 a) = length (ns @ [name])"
      by (simp add: tab gomap_size_update absent Cons.prems(1))
    have pos1: "\<forall>i<length (ns @ [name]).
        DAList.lookup (ints h1 a) ((ns @ [name]) ! i) = Some (int i)"
    proof (intro allI impI)
      fix i assume i: "i < length (ns @ [name])"
      show "DAList.lookup (ints h1 a) ((ns @ [name]) ! i) = Some (int i)"
      proof (cases "i < length ns")
        case True
        with new have "ns ! i \<noteq> name" by (metis nth_mem)
        with True Cons.prems(2) show ?thesis
          by (simp add: tab DAList.lookup_update nth_append)
      next
        case False
        with i have "i = length ns" by simp
        then show ?thesis by (simp add: tab DAList.lookup_update)
      qed
    qed
    have none1: "\<forall>n. n \<notin> set (ns @ [name]) \<longrightarrow> DAList.lookup (ints h1 a) n = None"
      using Cons.prems(3) by (simp add: tab DAList.lookup_update)
    from Cons.IH [OF size1 pos1 none1 dist] step Reg show ?thesis
      by simp
  next
    case (SetOrd name order)
    from r obtain b where b: "keywordOrder r = Some b" and ba: "b \<noteq> a" by auto
    define h1 where "h1 = h\<lparr>ints := (ints h)(b := DAList.update name order (ints h b))\<rparr>"
    have step: "run_call h r c = Inr h1"
      by (simp add: SetOrd SetKeywordOrder_def map_assign_def b h1_def)
    have tab: "ints h1 a = ints h a"
      using ba by (simp add: h1_def)
    from Cons.prems(4) SetOrd have dist: "distinct (ns @ reg_names cs)"
      by simp
    from Cons.IH [of h1 ns] Cons.prems(1-3) dist step SetOrd show ?thesis
      by (simp add: tab)
  qed
qed

lemma insert_order_is_position:
  assumes "kr h = None" and "getGlobalKeywordRegistry h = (r, h0)"
    and "distinct (reg_names cs)"
  shows "\<exists>h'. run_calls h0 r cs = Inr h' \<and>
           (\<forall>i<length (reg_names cs). GetKeywordInsertOrder h' r (reg_names cs ! i) = int i)"
proof -
  from assms(1,2) have r: "keywordInsertOrder r = Some (Suc (Suc (brk h)))"
      "keywordOrder r \<noteq> Some (Suc (Suc (brk h)))"
      "keywordRegistry r \<noteq> None" "keywordOrder r \<noteq> None"
    and tab: "ints h0 (Suc (Suc (brk h))) = DAList.empty"
    by (auto simp: getGlobalKeywordRegistry_def make_makers_def make_ints_def Let_def)
  from run_calls_insert_order [OF r, of h0 "[]" cs] assms(3) tab
  obtain h' where run: "run_calls h0 r cs = Inr h'"
    and pos: "\<forall>i<length (reg_names cs).
          DAList.lookup (ints h' (Suc (Suc (brk h)))) (reg_names cs ! i) = Some (int i)"
    by (auto simp: gomap_size_empty)
  from pos have "\<forall>i<length (reg_names cs). GetKeywordInsertOrder h' r (reg_names cs ! i) = int i"
    by (simp add: GetKeywordInsertOrder_def map_index_def r(1))
  with run show ?thesis by blast
qed

lemma run_calls_insert_order_bound:
  assumes r: "keywordInsertOrder r = Some a" "keywordOrder r \<noteq> Some a"
  shows "size (ints h a) \<le> k \<Longrightarrow>
     (\<forall>n v. DAList.lookup (ints h a) n = Some v \<longrightarrow> v < int k) \<Longrightarrow>
     run_calls h r cs = Inr h' \<Longrightarrow>
     (\<forall>n v. DAList.lookup (ints h' a) n = Some v \<longrightarrow> v < int (k + length (reg_names cs)))"
proof (induction cs arbitrary: h k)
  case Nil
  then show ?case by simp
next
  case (Cons c cs)
  from Cons.prems(3) obtain h1 where
    c: "run_call h r c = Inr h1" and cs: "run_calls h1 r cs = Inr h'"
    by (auto split: sum.splits)
  show ?case
  proof (cases c)
    case (Reg name maker)
    from c Reg have tab: "ints h1 a = DAList.update name (int (size (ints h a))) (ints h a)"
      by (auto simp: RegisterKeyword_def map_assign_def map_len_def r(1) split: sum.splits
          option.splits)
    have size1: "size (ints h1 a) \<le> Suc k"
      using Cons.prems(1) by (simp add: tab gomap_size_update)
    have val1: "\<forall>n v. DAList.lookup (ints h1 a) n = Some v \<longrightarrow> v < int (Suc k)"
    proof (intro allI impI)
      fix n v assume nv: "DAList.lookup (ints h1 a) n = Some v"
      show "v < int (Suc k)"
      proof (cases "n = name")
        case True
        with nv have "v = int (size (ints h a))"
          by (simp add: tab DAList.lookup_update)
        with Cons.prems(1) show ?thesis by simp
      next
        case False
        with nv have "DAList.lookup (ints h a) n = Some v"
          by (simp add: tab DAList.lookup_update)
        with Cons.prems(2) have "v < int k" by blast
        then show ?thesis by simp
      qed
    qed
    from Cons.IH [OF size1 val1 cs] Reg show ?thesis
      by simp
  next
    case (SetOrd name order)
    from c SetOrd r(2) have tab: "ints h1 a = ints h a"
      by (auto simp: SetKeywordOrder_def map_assign_def split: sum.splits option.splits)
    from Cons.IH [of h1 k] Cons.prems(1,2) cs SetOrd show ?thesis
      by (simp add: tab)
  qed
qed

lemma insert_order_below_calls:
  assumes "kr h = None" and "getGlobalKeywordRegistry h = (r, h0)"
    and "run_calls h0 r cs = Inr h'" and "length (reg_names cs) \<le> 1001"
  shows "GetKeywordInsertOrder h' r n \<le> 1000"
proof -
  from assms(1,2) have r: "keywordInsertOrder r = Some (Suc (Suc (brk h)))"
      "keywordOrder r \<noteq> Some (Suc (Suc (brk h)))"
    and tab: "ints h0 (Suc (Suc (brk h))) = DAList.empty"
    by (auto simp: getGlobalKeywordRegistry_def make_makers_def make_ints_def Let_def)
  have "\<forall>n v. DAList.lookup (ints h' (Suc (Suc (brk h)))) n = Some v
      \<longrightarrow> v < int (0 + length (reg_names cs))"
    by (rule run_calls_insert_order_bound [OF r _ _ assms(3)])
      (simp_all add: tab gomap_size_empty)
  with assms(4) show ?thesis
    by (fastforce simp: GetKeywordInsertOrder_def map_index_def r(1) split: option.splits)
qed

text \<open>
  C1 fails on the code. In the registry that holds \<open>type\<close> (insert order 0) and
  \<open>enum\<close> (insert order 1), registering \<open>type\<close> again with another maker makes
  \<open>GetKeyword\<close> return the keyword of the new maker, as the claim says, but moves
  the insert order of \<open>type\<close> from 0 to 2.
\<close>

theorem RegisterKeyword_again_moves_insert_order:
  "\<exists>h1 h2. run_calls heap0 registry0 [Reg ''type'' maker1, Reg ''enum'' maker1] = Inr h1 \<and>
     GetKeywordInsertOrder h1 registry0 ''type'' = 0 \<and>
     RegisterKeyword h1 registry0 ''type'' maker2 = Inr h2 \<and>
     GetKeyword h2 registry0 ''type'' = Inr kw2 \<and>
     GetKeywordInsertOrder h2 registry0 ''type'' = 2"
  by (simp add: heap0_def registry0_def RegisterKeyword_def map_assign_def map_len_def
      gomap_size_update gomap_size_empty DAList.lookup_update GetKeywordInsertOrder_def
      GetKeyword_def IsRegisteredKeyword_def map_index_def call_KeyMaker_def maker2_def)

text \<open>
  C2 fails on the code. After \<open>a\<close>, \<open>b\<close>, \<open>a\<close>, \<open>c\<close> have been
  registered in this order, \<open>a\<close> and \<open>c\<close> have the same insert order 2, and
  \<open>a\<close>, registered first, has a larger insert order than \<open>b\<close>. (For names
  that are registered once each, \<open>insert_order_is_position\<close> gives the claim.)
\<close>

theorem insert_order_collision_after_reregistration:
  "\<exists>h. run_calls heap0 registry0
          [Reg ''a'' maker1, Reg ''b'' maker1, Reg ''a'' maker1, Reg ''c'' maker1] = Inr h \<and>
     GetKeywordInsertOrder h registry0 ''a'' = 2 \<and>
     GetKeywordInsertOrder h registry0 ''b'' = 1 \<and>
     GetKeywordInsertOrder h registry0 ''c'' = 2"
  by (simp add: heap0_def registry0_def RegisterKeyword_def map_assign_def map_len_def
      gomap_size_update gomap_size_empty DAList.lookup_update GetKeywordInsertOrder_def
      map_index_def)

text \<open>
  C3. For a live registry, \<open>Copy\<close> returns a registry and a heap in which the four
  lookups of the copy agree with those of the source at every name, and the lookups of
  the source are as before. Every sequence of \<open>RegisterKeyword\<close> and
  \<open>SetKeywordOrder\<close> calls on the copy returns and leaves every lookup of the source
  unchanged; every such sequence on the source that returns leaves every lookup of the
  copy unchanged.
\<close>

theorem Copy_independent:
  assumes "live h r"
  shows "\<exists>r' h'. Copy h r = Inr (r', h') \<and>
           (\<forall>p. lookups h' r' p = lookups h r p) \<and>
           (\<forall>p. lookups h' r p = lookups h r p) \<and>
           (\<forall>cs. \<exists>h''. run_calls h' r' cs = Inr h'' \<and>
              (\<forall>p. lookups h'' r p = lookups h r p)) \<and>
           (\<forall>cs h''. run_calls h' r cs = Inr h'' \<longrightarrow>
              (\<forall>p. lookups h'' r' p = lookups h' r' p))"
proof -
  let ?copy = "\<lambda>kvs. fold (\<lambda>(k, v). DAList.update k v) kvs DAList.empty"
  define r' where "r' = \<lparr>keywordRegistry = Some (brk h), keywordOrder = Some (Suc (brk h)),
          keywordInsertOrder = Some (Suc (Suc (brk h)))\<rparr>"
  define h' where "h' = h\<lparr>makers := (makers h)
              (brk h := ?copy (map_range (makers h) (keywordRegistry r))),
           ints := (ints h)
              (Suc (brk h) := ?copy (map_range (ints h) (keywordOrder r)),
               Suc (Suc (brk h)) := ?copy (map_range (ints h) (keywordInsertOrder r))),
           brk := Suc (Suc (Suc (brk h)))\<rparr>"
  have copy: "Copy h r = Inr (r', h')"
    unfolding r'_def h'_def by (rule Copy_result [OF assms])
  from assms have l1: "live_ref (brk h) (keywordRegistry r)"
    and l2: "live_ref (brk h) (keywordOrder r)"
    and l3: "live_ref (brk h) (keywordInsertOrder r)"
    by (simp_all add: live_def)
  have sep1: "separate r r'" and sep2: "separate r' r"
    using l1 l2 l3
    by (auto simp: separate_def apart_def r'_def live_ref_def split: option.splits)
  have same: "lookups h' r' p = lookups h r p" for p
  proof (rule lookups_cong)
    show "map_index (makers h') (keywordRegistry r') p = map_index (makers h) (keywordRegistry r) p"
      by (simp add: h'_def r'_def map_index_copied)
    show "map_index (ints h') (keywordOrder r') p = map_index (ints h) (keywordOrder r) p"
      by (simp add: h'_def r'_def map_index_skip map_index_copied)
    show "map_index (ints h') (keywordInsertOrder r') p = map_index (ints h) (keywordInsertOrder r) p"
      by (simp add: h'_def r'_def map_index_copied)
  qed
  have kept: "lookups h' r p = lookups h r p" for p
  proof (rule lookups_cong)
    show "map_index (makers h') (keywordRegistry r) p = map_index (makers h) (keywordRegistry r) p"
      using l1 by (simp add: h'_def map_index_other)
    have l2': "live_ref (Suc (Suc (brk h))) (keywordOrder r)"
      and l2'': "live_ref (Suc (brk h)) (keywordOrder r)"
      using l2 by (auto intro: live_ref_mono)
    show "map_index (ints h') (keywordOrder r) p = map_index (ints h) (keywordOrder r) p"
      using l2' l2'' by (simp add: h'_def map_index_other)
    have l3': "live_ref (Suc (Suc (brk h))) (keywordInsertOrder r)"
      and l3'': "live_ref (Suc (brk h)) (keywordInsertOrder r)"
      using l3 by (auto intro: live_ref_mono)
    show "map_index (ints h') (keywordInsertOrder r) p = map_index (ints h) (keywordInsertOrder r) p"
      using l3' l3'' by (simp add: h'_def map_index_other)
  qed
  have on_copy: "\<exists>h''. run_calls h' r' cs = Inr h'' \<and>
      (\<forall>p. lookups h'' r p = lookups h r p)" for cs
  proof -
    obtain h'' where run: "run_calls h' r' cs = Inr h''"
      using run_calls_allocated [of r' h' cs] by (auto simp: r'_def)
    have "lookups h'' r p = lookups h r p" for p
      using run_calls_frame [OF run sep1, of p] kept [of p] by simp
    with run show ?thesis by blast
  qed
  have on_source: "lookups h'' r' p = lookups h' r' p"
    if "run_calls h' r cs = Inr h''" for cs h'' p
    by (rule run_calls_frame [OF that sep2])
  from copy same kept on_copy on_source show ?thesis
    by blast
qed

text \<open>
  The witness: the registry of \<open>heap1\<close> is copied, and \<open>enum\<close> is registered
  and the order of \<open>type\<close> changed on the copy.
\<close>

theorem Copy_independent_witness:
  "live heap1 registry0 \<and>
   (\<exists>r' h'. Copy heap1 registry0 = Inr (r', h') \<and>
      lookups h' r' ''type'' = (True, Inr kw1, 5, 0) \<and>
      (\<exists>h''. run_calls h' r' [Reg ''enum'' maker2, SetOrd ''type'' 9] = Inr h'' \<and>
         lookups h'' registry0 ''type'' = (True, Inr kw1, 5, 0) \<and>
         lookups h'' registry0 ''enum'' = (False, Inr NewVoid, 1, 1000)))"
proof -
  from Copy_independent [OF live_heap1] obtain r' h' where
    copy: "Copy heap1 registry0 = Inr (r', h')"
    and same: "\<forall>p. lookups h' r' p = lookups heap1 registry0 p"
    and on_copy: "\<forall>cs. \<exists>h''. run_calls h' r' cs = Inr h'' \<and>
              (\<forall>p. lookups h'' registry0 p = lookups heap1 registry0 p)"
    by blast
  from on_copy obtain h'' where
    run: "run_calls h' r' [Reg ''enum'' maker2, SetOrd ''type'' 9] = Inr h''"
    and kept: "\<forall>p. lookups h'' registry0 p = lookups heap1 registry0 p"
    by blast
  from copy same run kept show ?thesis
    by (auto simp: live_heap1 lookups_heap1_type lookups_heap1_enum)
qed

text \<open>
  C4. For a name that is not registered, \<open>GetKeyword\<close> returns (it does not
  panic), and what it returns is the void keyword: its \<open>ValidateKeyword\<close> leaves the
  list of errors as it is, for every state and value, and its \<open>Resolve\<close> returns
  nil for every pointer.
\<close>

theorem GetKeyword_unregistered_is_void:
  "\<not> IsRegisteredKeyword h r name \<Longrightarrow>
   \<exists>kw. GetKeyword h r name = Inr kw \<and> kw = NewVoid \<and>
     Errs (ValidateKeyword kw currentState data) = Errs currentState @ [] \<and>
     Resolve kw pointer uri = None"
  by (simp add: GetKeyword_def NewVoid_def)

theorem GetKeyword_unregistered_is_void_witness:
  "\<not> IsRegisteredKeyword heap1 registry0 ''format'' \<and>
   GetKeyword heap1 registry0 ''format'' = Inr NewVoid \<and>
   Errs (ValidateKeyword (NewVoid :: (string, nat, unit) Keyword)
           \<lparr>Errs = [\<lparr>PropertyPath = ''/a'', InvalidValue = None, Message = ''bad''\<rparr>]\<rparr> ''x'')
     = [\<lparr>PropertyPath = ''/a'', InvalidValue = None, Message = ''bad''\<rparr>] \<and>
   Resolve (NewVoid :: (string, nat, unit) Keyword) [''properties'', ''a''] ''#'' = None"
proof -
  have unreg: "\<not> IsRegisteredKeyword heap1 registry0 ''format''"
    by (simp add: IsRegisteredKeyword_def map_index_def heap1_def registry0_def
        DAList.lookup_update)
  show ?thesis
    using unreg GetKeyword_unregistered_is_void [OF unreg,
        of "\<lparr>Errs = [\<lparr>PropertyPath = ''/a'', InvalidValue = None, Message = ''bad''\<rparr>]\<rparr>"
           "''x''" "[''properties'', ''a'']" "''#''"]
    by auto
qed

text \<open>
  C7, as amended. Take the registry that \<open>getGlobalKeywordRegistry\<close> creates and
  any sequence of \<open>RegisterKeyword\<close> and \<open>SetKeywordOrder\<close> calls on it that
  never passes \<open>name\<close>. The calls return, and afterwards \<open>GetKeywordOrder\<close>
  gives 1 and \<open>GetKeywordInsertOrder\<close> gives 1000 for \<open>name\<close>. No name has an
  insert order above 1000 as long as \<open>RegisterKeyword\<close> was called at most 1001
  times.
\<close>

theorem unregistered_name_orders:
  assumes "kr h = None" and "getGlobalKeywordRegistry h = (r, h0)"
    and "name \<notin> call_name ` set cs"
  shows "\<exists>h'. run_calls h0 r cs = Inr h' \<and>
           GetKeywordOrder h' r name = 1 \<and> GetKeywordInsertOrder h' r name = 1000 \<and>
           (length (reg_names cs) \<le> 1001 \<longrightarrow> (\<forall>n. GetKeywordInsertOrder h' r n \<le> 1000))"
proof -
  from unseen_name_defaults [OF assms] obtain h' where
    run: "run_calls h0 r cs = Inr h'"
    and dflt: "GetKeywordOrder h' r name = 1" "GetKeywordInsertOrder h' r name = 1000"
    by blast
  have "\<forall>n. GetKeywordInsertOrder h' r n \<le> 1000" if "length (reg_names cs) \<le> 1001"
    using insert_order_below_calls [OF assms(1,2) run that] by blast
  with run dflt show ?thesis by blast
qed

theorem unregistered_name_orders_witness:
  "\<exists>h'. run_calls heap0 registry0 [Reg ''type'' maker1, SetOrd ''type'' 5] = Inr h' \<and>
     GetKeywordOrder h' registry0 ''format'' = 1 \<and>
     GetKeywordInsertOrder h' registry0 ''format'' = 1000 \<and>
     GetKeywordInsertOrder h' registry0 ''type'' \<le> 1000"
proof -
  have k: "kr (start :: (string, nat, unit) heap) = None"
    by (simp add: start_def)
  have n: "''format'' \<notin> call_name ` set [Reg ''type'' maker1, SetOrd ''type'' 5 :: (string, nat, unit) call]"
    by simp
  show ?thesis
    using unregistered_name_orders [OF k start_registry n] by auto
qed

text \<open>
  C7 as stated calls 1000 the maximum possible tie-break. After 1002 different names
  have been registered, the last of them has the insert order 1001, above the 1000 of a
  name that was never registered.
\<close>

theorem sentinel_not_largest_counterexample:
  "insert_order_after (many_calls 1002) (name_of 1001) = Inr 1001 \<and>
   insert_order_after (many_calls 1002) ''format'' = Inr 1000"
proof -
  have k: "kr (start :: (string, nat, unit) heap) = None"
    by (simp add: start_def)
  have d: "distinct (reg_names (many_calls 1002))"
    by (simp only: reg_names_many_calls distinct_names)
  from insert_order_is_position [OF k start_registry d] obtain h' where
    run: "run_calls heap0 registry0 (many_calls 1002) = Inr h'"
    and pos: "\<forall>i<length (reg_names (many_calls 1002)).
           GetKeywordInsertOrder h' registry0 (reg_names (many_calls 1002) ! i) = int i"
    by blast
  from pos have "GetKeywordInsertOrder h' registry0 (map name_of [0..<1002] ! 1001) = int 1001"
    by (simp add: reg_names_many_calls)
  then have reg: "GetKeywordInsertOrder h' registry0 (name_of 1001) = 1001"
    by simp
  have "''format'' \<notin> call_name ` set (many_calls 1002)"
    by (auto simp: call_names_many_calls name_of_def)
  from unseen_name_defaults [OF k start_registry this] run
  have unreg: "GetKeywordInsertOrder h' registry0 ''format'' = 1000"
    by auto
  from run reg unreg show ?thesis
    by (simp add: insert_order_after_def)
qed

end
